theory Spec2Isabelle
  imports Main "HOL-Library.Char_ord" "HOL-Library.List_Lexorder"
begin

section \<open>The iRODS hostname cache\<close>

text \<open>
  The source is \<^verbatim>\<open>lib/core/src/hostname_cache.cpp\<close>.
  The cache is an ordered map from hostname keys to \<open>alias\<close> entries that lives in a
  shared-memory segment. Every operation runs under the named reader-writer lock, so the
  model is sequential: an operation is a function of the state it finds and the state it
  leaves. What the operating system and the clock contribute is passed in explicitly:
  \<^item> \<open>now\<close> is the value of \<open>clock_type::now().time_since_epoch().count()\<close> read by the
    call, in ticks of the system clock;
  \<^item> \<open>pid\<close> is the value of \<open>getpid()\<close>;
  \<^item> an environment \<open>env\<close> says which calls into Boost.Interprocess throw.
  Undefined behaviour of the C++ source (a store outside the \<open>hostname\<close> array, a read
  past the end of a character array) is an explicit \<open>fault\<close> outcome. Allocation inside
  the segment is taken to succeed: the capacity of the segment is not part of the model.
\<close>

subsection \<open>Strings\<close>

definition NUL :: char where
  "NUL = CHR 0x00"

text \<open>
  A \<open>std::string_view\<close> is a pointer and a length. \<open>data\<close> holds the characters in memory
  from the pointer to the end of the array it points into, \<open>size_view\<close> the length, so
  \<open>chars\<close> are the characters of the view. What follows them in \<open>data\<close> belongs to the
  array, not to the view: a view of a whole \<open>std::string\<close> or of a literal is followed by a
  NUL (\<open>view_of\<close>), a view of the first characters of a longer string is followed by the
  rest of that string (\<open>prefix_view\<close>).
\<close>

record string_view =
  data :: string
  size_view :: nat

definition chars :: "string_view \<Rightarrow> string" where
  "chars v = take (size_view v) (data v)"

definition view_of :: "string \<Rightarrow> string_view" where
  "view_of s = \<lparr>data = s @ [NUL], size_view = length s\<rparr>"

definition prefix_view :: "string \<Rightarrow> nat \<Rightarrow> string_view" where
  "prefix_view s n = \<lparr>data = s @ [NUL], size_view = n\<rparr>"

text \<open>The characters of an array up to its first NUL.\<close>

definition c_str :: "string \<Rightarrow> string" where
  "c_str s = takeWhile (\<lambda>c. c \<noteq> NUL) s"

text \<open>
  \<open>std::strncpy(dest, src, n)\<close> stores exactly \<open>n\<close> characters at \<open>dest[0] .. dest[n-1]\<close>:
  the characters of \<open>src\<close> up to its first NUL (at most \<open>n\<close> of them), then NULs.
  It knows nothing of the size of \<open>dest\<close>. The model returns the stores it performs, as
  pairs of an offset into \<open>dest\<close> and the character stored there.
\<close>

definition strncpy :: "string \<Rightarrow> nat \<Rightarrow> (nat \<times> char) list" where
  "strncpy src n =
     (let copied = take n (c_str src)
      in enumerate 0 (copied @ replicate (n - length copied) NUL))"

datatype fault = Out_of_bounds_write | Out_of_bounds_read

text \<open>Performing stores on an array: a store past the end of the array is a fault.\<close>

fun store_all :: "(nat \<times> char) list \<Rightarrow> string \<Rightarrow> fault + string" where
  "store_all [] buf = Inr buf"
| "store_all ((i, c) # ws) buf =
     (if i < length buf then store_all ws (buf[i := c]) else Inl Out_of_bounds_write)"

text \<open>
  Building a string from a \<open>const char*\<close>, as \<open>return iter->second.hostname\<close> and
  \<open>key_type{_key.data(), *g_allocator}\<close> do: the characters of the array are read up to the
  first NUL, and past the array when it holds none.
\<close>

definition string_from_buffer :: "string \<Rightarrow> fault + string" where
  "string_from_buffer buf =
     (if NUL \<in> set buf then Inr (takeWhile (\<lambda>c. c \<noteq> NUL) buf) else Inl Out_of_bounds_read)"

subsection \<open>The mapped value\<close>

definition hostname_size :: nat where
  "hostname_size = 256"

record "alias" =
  hostname :: string
  expiration :: int
  expires_after :: int

text \<open>
  The constructor: \<open>hostname{}\<close> zero-initialises the 256 characters, then the body runs
  \<open>std::strncpy(hostname, _key.data(), _key.size())\<close>.
\<close>

definition alias_ctor :: "string \<Rightarrow> int \<Rightarrow> int \<Rightarrow> fault + alias" where
  "alias_ctor key' expiration' expires_after' =
     (case store_all (strncpy key' (length key')) (replicate hostname_size NUL) of
        Inl f \<Rightarrow> Inl f
      | Inr buf \<Rightarrow>
          Inr \<lparr>hostname = buf, expiration = expiration', expires_after = expires_after'\<rparr>)"

text \<open>The entry whose array holds the characters \<open>s\<close>, the rest NUL.\<close>

definition entry :: "string \<Rightarrow> int \<Rightarrow> int \<Rightarrow> alias" where
  "entry s x t =
     \<lparr>hostname = s @ replicate (hostname_size - length s) NUL, expiration = x, expires_after = t\<rparr>"

text \<open>
  \<open>alias_ctor\<close> holds every store against the array \<open>hostname\<close>, as the language does.
  What a store past the array hits is a matter of the layout of the object. On the
  platforms the code is built for, the 272 bytes of an \<open>alias\<close> are \<open>hostname\<close> at offsets
  0 to 255, \<open>expiration\<close> at 256 to 263 and \<open>expires_after\<close> at 264 to 271, both as
  little-endian two's complement; \<open>alias_ctor_object\<close> carries the stores out on that
  object. \<open>set_byte i c x\<close> is the 64-bit integer \<open>x\<close> with its byte \<open>i\<close> replaced by \<open>c\<close>.
  A store at offset 272 or more leaves the object.
\<close>

definition wrap64 :: "int \<Rightarrow> int" where
  "wrap64 x = (x + 2 ^ 63) mod 2 ^ 64 - 2 ^ 63"

definition set_byte :: "nat \<Rightarrow> char \<Rightarrow> int \<Rightarrow> int" where
  "set_byte i c x =
     wrap64 (x mod 2 ^ 64 - (x mod 2 ^ 64 div 256 ^ i mod 256) * 256 ^ i + of_char c * 256 ^ i)"

fun store_object :: "(nat \<times> char) list \<Rightarrow> alias \<Rightarrow> fault + alias" where
  "store_object [] e = Inr e"
| "store_object ((i, c) # ws) e =
     (if i < 256 then store_object ws (e\<lparr>hostname := (hostname e)[i := c]\<rparr>)
      else if i < 264 then store_object ws (e\<lparr>expiration := set_byte (i - 256) c (expiration e)\<rparr>)
      else if i < 272 then
        store_object ws (e\<lparr>expires_after := set_byte (i - 264) c (expires_after e)\<rparr>)
      else Inl Out_of_bounds_write)"

definition alias_ctor_object :: "string \<Rightarrow> int \<Rightarrow> int \<Rightarrow> fault + alias" where
  "alias_ctor_object key' expiration' expires_after' =
     store_object (strncpy key' (length key'))
       \<lparr>hostname = replicate hostname_size NUL,
        expiration = expiration', expires_after = expires_after'\<rparr>"

subsection \<open>Time\<close>

text \<open>
  Tick counts and \<open>std::chrono::seconds\<close> counts are signed 64-bit integers. They are
  modelled as integers, with the wrap-around of 64-bit arithmetic (\<open>wrap64\<close>) written out
  where the source adds and multiplies. \<open>ticks_per_second\<close> is the resolution of
  \<open>std::chrono::system_clock\<close> (nanoseconds in libstdc++); the proofs use only that it is
  positive. \<open>duration_cast<seconds>\<close> divides and truncates towards zero.
\<close>

definition ticks_per_second :: int where
  "ticks_per_second = 1000000000"

definition duration_cast_seconds :: "int \<Rightarrow> int" where
  "duration_cast_seconds t = sgn t * (\<bar>t\<bar> div ticks_per_second)"

definition current_timestamp_in_seconds :: "int \<Rightarrow> int" where
  "current_timestamp_in_seconds now = duration_cast_seconds now"

subsection \<open>The ordered map\<close>

text \<open>
  \<open>bi::map<key_type, mapped_type, std::less<key_type>>\<close> is the list of its entries in
  iteration order. \<open>std::less\<close> on strings is the lexicographic order of the characters
  as unsigned values, the order of \<open>char list\<close> here.
\<close>

type_synonym key_type = string
type_synonym mapped_type = "alias"
type_synonym map_type = "(key_type \<times> mapped_type) list"

text \<open>
  \<open>key_type{_key.data(), *g_allocator}\<close>: the key is built from the pointer of the view
  alone. The length of the view is not read.
\<close>

definition key_type_ctor :: "string_view \<Rightarrow> fault + key_type" where
  "key_type_ctor key' = string_from_buffer (data key')"

definition map_find :: "key_type \<Rightarrow> map_type \<Rightarrow> mapped_type option" where
  "map_find k m = map_of m k"

definition map_insert_or_assign :: "key_type \<Rightarrow> mapped_type \<Rightarrow> map_type \<Rightarrow> map_type \<times> bool" where
  "map_insert_or_assign k v m =
     (case map_find k m of
        None \<Rightarrow> (insort_key fst (k, v) m, True)
      | Some _ \<Rightarrow> (map (\<lambda>(k', v'). if k' = k then (k', v) else (k', v')) m, False))"

definition map_erase :: "key_type \<Rightarrow> map_type \<Rightarrow> map_type" where
  "map_erase k m = filter (\<lambda>(k', _). k' \<noteq> k) m"

text \<open>\<open>erase(iter)\<close>: the entry at the iterator goes, the iterator then stands at the next one.\<close>

definition map_erase_at :: "nat \<Rightarrow> map_type \<Rightarrow> map_type" where
  "map_erase_at i m = take i m @ drop (Suc i) m"

definition map_inv :: "map_type \<Rightarrow> bool" where
  "map_inv m = (sorted (map fst m) \<and> distinct (map fst m))"

subsection \<open>The operations on the cache\<close>

text \<open>
  Each operation is given on the map that \<open>g_map\<close> points to; the lock it takes first
  has no effect on a sequential run. The key is passed as the view the caller hands over.
  Of the alias the constructor reads exactly the characters of the view
  (\<open>_key.data()\<close> for \<open>_key.size()\<close> characters), so the alias is passed as these.
\<close>

definition insert_or_assign ::
  "int \<Rightarrow> string_view \<Rightarrow> string \<Rightarrow> int \<Rightarrow> map_type \<Rightarrow> fault + (map_type \<times> bool)" where
  "insert_or_assign now key' alias' expires_after' m =
     (let tp = wrap64 (now + wrap64 (expires_after' * ticks_per_second));
          expiration' = duration_cast_seconds tp
      in (case key_type_ctor key' of
            Inl f \<Rightarrow> Inl f
          | Inr k \<Rightarrow>
         (case alias_ctor alias' expiration' expires_after' of
            Inl f \<Rightarrow> Inl f
          | Inr a \<Rightarrow> Inr (map_insert_or_assign k a m))))"

definition lookup :: "int \<Rightarrow> string_view \<Rightarrow> map_type \<Rightarrow> fault + string option" where
  "lookup now key' m =
     (case key_type_ctor key' of
        Inl f \<Rightarrow> Inl f
      | Inr k \<Rightarrow>
     (case map_find k m of
        Some e \<Rightarrow>
          if current_timestamp_in_seconds now < expiration e then
            (case string_from_buffer (hostname e) of
               Inl f \<Rightarrow> Inl f
             | Inr s \<Rightarrow> Inr (Some s))
          else Inr None
      | None \<Rightarrow> Inr None))"

definition erase :: "string_view \<Rightarrow> map_type \<Rightarrow> fault + map_type" where
  "erase key' m =
     (case key_type_ctor key' of
        Inl f \<Rightarrow> Inl f
      | Inr k \<Rightarrow> Inr (map_erase k m))"

function erase_expired_loop :: "int \<Rightarrow> nat \<Rightarrow> map_type \<Rightarrow> map_type" where
  "erase_expired_loop now iter m =
     (if iter < length m then
        (if now \<ge> expiration (snd (m ! iter))
         then erase_expired_loop now iter (map_erase_at iter m)
         else erase_expired_loop now (Suc iter) m)
      else m)"
  by pat_completeness auto
termination
  by (relation "measure (\<lambda>(now, iter, m). length m - iter)")
     (auto simp: map_erase_at_def)

declare erase_expired_loop.simps [simp del]

definition erase_expired_entries :: "int \<Rightarrow> map_type \<Rightarrow> map_type" where
  "erase_expired_entries now m = erase_expired_loop (current_timestamp_in_seconds now) 0 m"

definition clear :: "map_type \<Rightarrow> map_type" where
  "clear m = []"

definition size_entries :: "map_type \<Rightarrow> nat" where
  "size_entries m = length m"

subsection \<open>Sequences of calls\<close>

text \<open>
  A client of the cache is a sequence of calls, each with the clock reading it observes.
  A fault ends the run. \<open>last_insert k cs\<close> is the most recent call of
  \<open>insert_or_assign\<close> in \<open>cs\<close> whose view gives the key \<open>k\<close>.
\<close>

datatype call =
    Insert_or_assign int string_view string int
  | Lookup int string_view
  | Erase string_view
  | Erase_expired_entries int
  | Clear
  | Size

fun is_lookup :: "call \<Rightarrow> bool" where
  "is_lookup (Lookup now key') = True"
| "is_lookup c = False"

fun step :: "call \<Rightarrow> map_type \<Rightarrow> fault + map_type" where
  "step (Insert_or_assign now key' alias' expires_after') m =
     (case insert_or_assign now key' alias' expires_after' m of
        Inl f \<Rightarrow> Inl f
      | Inr (m', inserted) \<Rightarrow> Inr m')"
| "step (Lookup now key') m =
     (case lookup now key' m of Inl f \<Rightarrow> Inl f | Inr r \<Rightarrow> Inr m)"
| "step (Erase key') m = erase key' m"
| "step (Erase_expired_entries now) m = Inr (erase_expired_entries now m)"
| "step Clear m = Inr (clear m)"
| "step Size m = Inr m"

fun run :: "call list \<Rightarrow> map_type \<Rightarrow> fault + map_type" where
  "run [] m = Inr m"
| "run (c # cs) m = (case step c m of Inl f \<Rightarrow> Inl f | Inr m' \<Rightarrow> run cs m')"

fun insert_for :: "key_type \<Rightarrow> call \<Rightarrow> (int \<times> string \<times> int) option" where
  "insert_for k (Insert_or_assign now key' alias' expires_after') =
     (if key_type_ctor key' = Inr k then Some (now, alias', expires_after') else None)"
| "insert_for k c = None"

fun last_insert :: "key_type \<Rightarrow> call list \<Rightarrow> (int \<times> string \<times> int) option" where
  "last_insert k [] = None"
| "last_insert k (c # cs) =
     (case last_insert k cs of Some r \<Rightarrow> Some r | None \<Rightarrow> insert_for k c)"

text \<open>An entry as the call \<open>(now, alias, ttl)\<close> of \<open>insert_or_assign\<close> writes it.\<close>

definition written_by :: "alias \<Rightarrow> int \<times> string \<times> int \<Rightarrow> bool" where
  "written_by e r =
     (case r of (now, a, ttl) \<Rightarrow>
        expiration e = duration_cast_seconds (wrap64 (now + wrap64 (ttl * ticks_per_second)))
        \<and> expires_after e = ttl
        \<and> alias_ctor a (expiration e) ttl = Inr e)"

subsection \<open>The process, the operating system and the life cycle\<close>

text \<open>
  The globals of the anonymous namespace belong to one process; a handle is the identity
  of the segment it maps, or the name of the mutex it opened. The operating system keeps
  the two name spaces and the segments. A segment holds at most the one anonymous map that
  \<open>init\<close> constructs in it. Zero-initialisation gives the globals before the first call.
\<close>

record segment =
  seg_size :: nat
  seg_map :: "map_type option"

record os_state =
  shm_names :: "string \<rightharpoonup> nat"
  mutex_names :: "string set"
  segments :: "nat \<rightharpoonup> segment"
  next_segment :: nat

record globals =
  g_segment_name :: string
  g_segment_size :: nat
  g_mutex_name :: string
  g_owner_pid :: int
  g_segment :: "nat option"
  g_allocator :: "nat option"
  g_mutex :: "string option"
  g_map :: "nat option"

type_synonym world = "globals \<times> os_state"

definition globals_zero :: globals where
  "globals_zero =
     \<lparr>g_segment_name = [], g_segment_size = 0, g_mutex_name = [], g_owner_pid = 0,
      g_segment = None, g_allocator = None, g_mutex = None, g_map = None\<rparr>"

text \<open>
  The calls into Boost.Interprocess. The environment decides whether a call throws; a
  \<open>create_only\<close> constructor also throws when the name is taken. Removing a name that
  is not there changes nothing.
\<close>

datatype lib_call =
  Mutex_remove | Shm_remove | Shm_create | Mutex_create | Construct_map | Destroy_ptr

datatype exn = Interprocess_exception lib_call

type_synonym env = "lib_call \<Rightarrow> bool"

definition named_sharable_mutex_remove :: "env \<Rightarrow> string \<Rightarrow> os_state \<Rightarrow> exn + os_state" where
  "named_sharable_mutex_remove env name os =
     (if env Mutex_remove then Inl (Interprocess_exception Mutex_remove)
      else Inr (os\<lparr>mutex_names := mutex_names os - {name}\<rparr>))"

definition shared_memory_object_remove :: "env \<Rightarrow> string \<Rightarrow> os_state \<Rightarrow> exn + os_state" where
  "shared_memory_object_remove env name os =
     (if env Shm_remove then Inl (Interprocess_exception Shm_remove)
      else Inr (os\<lparr>shm_names := (shm_names os)(name := None)\<rparr>))"

definition managed_shared_memory_create ::
  "env \<Rightarrow> string \<Rightarrow> nat \<Rightarrow> os_state \<Rightarrow> exn + (nat \<times> os_state)" where
  "managed_shared_memory_create env name sz os =
     (if env Shm_create \<or> shm_names os name \<noteq> None
      then Inl (Interprocess_exception Shm_create)
      else Inr (next_segment os,
                os\<lparr>shm_names := (shm_names os)(name \<mapsto> next_segment os),
                   segments := (segments os)(next_segment os \<mapsto> \<lparr>seg_size = sz, seg_map = None\<rparr>),
                   next_segment := Suc (next_segment os)\<rparr>))"

definition named_sharable_mutex_create :: "env \<Rightarrow> string \<Rightarrow> os_state \<Rightarrow> exn + os_state" where
  "named_sharable_mutex_create env name os =
     (if env Mutex_create \<or> name \<in> mutex_names os
      then Inl (Interprocess_exception Mutex_create)
      else Inr (os\<lparr>mutex_names := insert name (mutex_names os)\<rparr>))"

definition set_seg_map :: "nat \<Rightarrow> map_type option \<Rightarrow> os_state \<Rightarrow> os_state" where
  "set_seg_map sid v os =
     os\<lparr>segments := (segments os)(sid := map_option (\<lambda>seg. seg\<lparr>seg_map := v\<rparr>) (segments os sid))\<rparr>"

definition construct_map :: "env \<Rightarrow> nat \<Rightarrow> os_state \<Rightarrow> exn + os_state" where
  "construct_map env sid os =
     (if env Construct_map then Inl (Interprocess_exception Construct_map)
      else Inr (set_seg_map sid (Some []) os))"

definition destroy_ptr :: "env \<Rightarrow> nat \<Rightarrow> os_state \<Rightarrow> exn + os_state" where
  "destroy_ptr env p os =
     (if env Destroy_ptr then Inl (Interprocess_exception Destroy_ptr)
      else Inr (set_seg_map p None os))"

text \<open>The map that \<open>g_map\<close> points to, if any.\<close>

definition the_map :: "world \<Rightarrow> map_type option" where
  "the_map w =
     (case g_map (fst w) of
        None \<Rightarrow> None
      | Some p \<Rightarrow> (case segments (snd w) p of None \<Rightarrow> None | Some seg \<Rightarrow> seg_map seg))"

text \<open>
  \<open>init\<close>. Of its view \<open>_shm_name\<close> the code reads the pointer alone
  (\<open>g_segment_name = _shm_name.data()\<close>). \<open>shm_name\<close> stands for the characters that
  follow the pointer, up to the NUL that ends the array they are in; the name is what they
  hold up to their first NUL. An exception leaves with the globals and the name spaces as
  they are at the throw: \<open>Inl (e, w)\<close>.
\<close>

definition init :: "env \<Rightarrow> int \<Rightarrow> string \<Rightarrow> nat \<Rightarrow> world \<Rightarrow> exn \<times> world + world" where
  "init env pid shm_name shm_size w =
     (let (g, os) = w in
      if pid = g_owner_pid g then Inr w
      else
       (let g1 = g\<lparr>g_segment_name := c_str shm_name,
                   g_segment_size := shm_size,
                   g_mutex_name := c_str shm_name @ ''_mutex''\<rparr> in
       (case named_sharable_mutex_remove env (g_mutex_name g1) os of
          Inl e \<Rightarrow> Inl (e, g1, os)
        | Inr os1 \<Rightarrow>
       (case shared_memory_object_remove env (g_segment_name g1) os1 of
          Inl e \<Rightarrow> Inl (e, g1, os1)
        | Inr os2 \<Rightarrow>
       (let g2 = g1\<lparr>g_owner_pid := pid\<rparr> in
       (case managed_shared_memory_create env (g_segment_name g2) (g_segment_size g2) os2 of
          Inl e \<Rightarrow> Inl (e, g2, os2)
        | Inr (sid, os3) \<Rightarrow>
       (let g3 = g2\<lparr>g_segment := Some sid, g_allocator := Some sid\<rparr> in
       (case named_sharable_mutex_create env (g_mutex_name g3) os3 of
          Inl e \<Rightarrow> Inl (e, g3, os3)
        | Inr os4 \<Rightarrow>
       (let g4 = g3\<lparr>g_mutex := Some (g_mutex_name g3)\<rparr> in
       (case construct_map env sid os4 of
          Inl e \<Rightarrow> Inl (e, g4, os4)
        | Inr os5 \<Rightarrow> Inr (g4\<lparr>g_map := Some sid\<rparr>, os5)))))))))))"

text \<open>
  \<open>deinit\<close>. \<open>deinit_try\<close> is the block under \<open>try\<close>, \<open>destroy_map\<close> its statement
  \<open>if (g_segment && g_map) { ... }\<close>; \<open>catch (...) {}\<close> keeps the state reached at the
  throw and returns.
\<close>

definition destroy_map :: "env \<Rightarrow> world \<Rightarrow> exn \<times> world + world" where
  "destroy_map env w =
     (let (g, os) = w in
      if g_segment g \<noteq> None \<and> g_map g \<noteq> None then
        (case destroy_ptr env (the (g_map g)) os of
           Inl e \<Rightarrow> Inl (e, g, os)
         | Inr os1 \<Rightarrow> Inr (g\<lparr>g_map := None\<rparr>, os1))
      else Inr w)"

definition deinit_try :: "env \<Rightarrow> world \<Rightarrow> exn \<times> world + world" where
  "deinit_try env w =
     (let (g, os) = w;
          g1 = g\<lparr>g_owner_pid := 0\<rparr> in
      (case destroy_map env (g1, os) of
         Inl t \<Rightarrow> Inl t
       | Inr (g2, os2) \<Rightarrow>
      (let g3 = g2\<lparr>g_mutex := None, g_allocator := None, g_segment := None\<rparr> in
      (case named_sharable_mutex_remove env (g_mutex_name g3) os2 of
         Inl e \<Rightarrow> Inl (e, g3, os2)
       | Inr os3 \<Rightarrow>
      (case shared_memory_object_remove env (g_segment_name g3) os3 of
         Inl e \<Rightarrow> Inl (e, g3, os3)
       | Inr os4 \<Rightarrow> Inr (g3, os4))))))"

definition deinit :: "env \<Rightarrow> int \<Rightarrow> world \<Rightarrow> exn + world" where
  "deinit env pid w =
     (if pid \<noteq> g_owner_pid (fst w) then Inr w
      else case deinit_try env w of
             Inl (e, w') \<Rightarrow> Inr w'
           | Inr w' \<Rightarrow> Inr w')"

text \<open>
  In every state the code reaches, a map pointer comes with a segment handle: \<open>init\<close>
  sets the handle first, \<open>deinit\<close> clears the pointer first.
\<close>

definition handles_ok :: "globals \<Rightarrow> bool" where
  "handles_ok g = (g_map g \<noteq> None \<longrightarrow> g_segment g \<noteq> None)"

text \<open>The operating system before any call, and the environment in which no call throws.\<close>

definition os_boot :: os_state where
  "os_boot = \<lparr>shm_names = Map.empty, mutex_names = {}, segments = Map.empty, next_segment = 0\<rparr>"

definition quiet :: env where
  "quiet c = False"

text \<open>
  A world for the examples: process 42 has initialised the cache under the name
  \<open>hc\<close>, and the cache holds one entry.
\<close>

definition sample_world :: world where
  "sample_world =
     (\<lparr>g_segment_name = ''hc'', g_segment_size = 4096, g_mutex_name = ''hc_mutex'',
       g_owner_pid = 42, g_segment = Some 0, g_allocator = Some 0,
       g_mutex = Some ''hc_mutex'', g_map = Some 0\<rparr>,
      \<lparr>shm_names = [''hc'' \<mapsto> 0], mutex_names = {''hc_mutex''},
       segments = [0 \<mapsto> \<lparr>seg_size = 4096,
                              seg_map = Some [(''host1'', entry ''1.2.3.4'' 61 60)]\<rparr>],
       next_segment = 1\<rparr>)"

definition sample_calls :: "call list" where
  "sample_calls =
     [Insert_or_assign 1500000000 (view_of ''host1'') ''1.2.3.4'' 60,
      Lookup 2000000000 (view_of ''host1''),
      Insert_or_assign 9000000000 (view_of ''host1'') ''5.6.7.8'' 30,
      Lookup 9500000000 (view_of ''host1'')]"

section \<open>Auxiliary facts\<close>

subsection \<open>Strings and the entry constructor\<close>

lemma store_all_enumerate:
  "i + length bs \<le> length buf \<Longrightarrow>
   store_all (enumerate i bs) buf = Inr (take i buf @ bs @ drop (i + length bs) buf)"
proof (induction bs arbitrary: i buf)
  case Nil
  then show ?case by simp
next
  case (Cons b bs)
  from Cons.prems have i: "i < length buf" by simp
  from Cons.prems have "Suc i + length bs \<le> length (buf[i := b])" by simp
  then have "store_all (enumerate (Suc i) bs) (buf[i := b]) =
             Inr (take (Suc i) (buf[i := b]) @ bs @ drop (Suc i + length bs) (buf[i := b]))"
    by (rule Cons.IH)
  moreover have "take (Suc i) (buf[i := b]) = take i buf @ [b]"
    using i by (simp add: take_Suc_conv_app_nth)
  moreover have "drop (Suc i + length bs) (buf[i := b]) = drop (i + length (b # bs)) buf"
    by simp
  ultimately show ?case using i by simp
qed

lemma store_all_enumerate_overflow:
  "i \<le> length buf \<Longrightarrow> length buf < i + length bs \<Longrightarrow>
   store_all (enumerate i bs) buf = Inl Out_of_bounds_write"
proof (induction bs arbitrary: i buf)
  case Nil
  then show ?case by simp
next
  case (Cons b bs)
  show ?case
  proof (cases "i < length buf")
    case True
    from Cons.prems have "length (buf[i := b]) < Suc i + length bs" by simp
    moreover from True have "Suc i \<le> length (buf[i := b])" by simp
    ultimately have "store_all (enumerate (Suc i) bs) (buf[i := b]) = Inl Out_of_bounds_write"
      by (rule Cons.IH[rotated])
    with True show ?thesis by simp
  next
    case False
    then show ?thesis by simp
  qed
qed

lemma strncpy_length: "length (strncpy src n) = n"
  by (simp add: strncpy_def Let_def)

lemma c_str_length: "length (c_str s) \<le> length s"
  by (simp add: c_str_def length_takeWhile_le)

lemma c_str_no_NUL: "NUL \<notin> set (c_str s)"
  unfolding c_str_def by (induction s) auto

lemma c_str_id: "NUL \<notin> set s \<Longrightarrow> c_str s = s"
  unfolding c_str_def by (induction s) auto

lemma strncpy_whole:
  "strncpy s (length s) = enumerate 0 (c_str s @ replicate (length s - length (c_str s)) NUL)"
  by (simp add: strncpy_def Let_def c_str_length)

lemma alias_ctor_fits:
  assumes "length a \<le> hostname_size"
  shows "alias_ctor a x t =
         Inr \<lparr>hostname = c_str a @ replicate (hostname_size - length (c_str a)) NUL,
              expiration = x, expires_after = t\<rparr>"
proof -
  let ?bs = "c_str a @ replicate (length a - length (c_str a)) NUL"
  have len: "length ?bs = length a" using c_str_length[of a] by simp
  have "store_all (enumerate 0 ?bs) (replicate hostname_size NUL) =
        Inr (take 0 (replicate hostname_size NUL) @ ?bs @
             drop (0 + length ?bs) (replicate hostname_size NUL))"
    by (rule store_all_enumerate) (use assms len in simp)
  also have "\<dots> = Inr (c_str a @ replicate (hostname_size - length (c_str a)) NUL)"
    using assms c_str_length[of a] by (simp add: replicate_add[symmetric])
  finally show ?thesis by (simp add: alias_ctor_def strncpy_whole)
qed

lemma alias_ctor_overflow:
  assumes "hostname_size < length a"
  shows "alias_ctor a x t = Inl Out_of_bounds_write"
proof -
  let ?bs = "c_str a @ replicate (length a - length (c_str a)) NUL"
  have len: "length ?bs = length a" using c_str_length[of a] by simp
  have "store_all (enumerate 0 ?bs) (replicate hostname_size NUL) = Inl Out_of_bounds_write"
    by (rule store_all_enumerate_overflow) (use assms len in simp_all)
  then show ?thesis by (simp add: alias_ctor_def strncpy_whole)
qed

lemma takeWhile_padded:
  "NUL \<notin> set xs \<Longrightarrow> takeWhile (\<lambda>c. c \<noteq> NUL) (xs @ replicate n NUL) = xs"
  by (induction xs) auto

lemma string_from_buffer_padded:
  assumes "NUL \<notin> set xs" and "0 < n"
  shows "string_from_buffer (xs @ replicate n NUL) = Inr xs"
  using assms by (simp add: string_from_buffer_def takeWhile_padded)

subsection \<open>Views and keys\<close>

lemma chars_view_of: "chars (view_of s) = s"
  by (simp add: chars_def view_of_def)

lemma chars_prefix_view: "n \<le> length s \<Longrightarrow> chars (prefix_view s n) = take n s"
  by (simp add: chars_def prefix_view_def)

lemma string_from_buffer_terminated: "string_from_buffer (s @ [NUL]) = Inr (c_str s)"
proof -
  have "takeWhile (\<lambda>c. c \<noteq> NUL) (s @ [NUL]) = takeWhile (\<lambda>c. c \<noteq> NUL) s"
    by (induction s) auto
  then show ?thesis by (simp add: string_from_buffer_def c_str_def)
qed

lemma key_type_ctor_view_of: "key_type_ctor (view_of s) = Inr (c_str s)"
  by (simp add: key_type_ctor_def view_of_def string_from_buffer_terminated)

lemma key_type_ctor_prefix_view: "key_type_ctor (prefix_view s n) = Inr (c_str s)"
  by (simp add: key_type_ctor_def prefix_view_def string_from_buffer_terminated)

lemma key_type_ctor_no_NUL: "key_type_ctor k = Inr s \<Longrightarrow> NUL \<notin> set s"
  by (auto simp: key_type_ctor_def string_from_buffer_def split: if_splits dest: set_takeWhileD)

subsection \<open>The ordered map\<close>

lemma map_find_insert_or_assign:
  "map_find k' (fst (map_insert_or_assign k v m)) = (if k' = k then Some v else map_find k' m)"
proof (cases "map_find k m")
  case None
  have "map_of (insort_key fst (k, v) m) k' = (if k' = k then Some v else map_of m k')"
    by (induction m) auto
  with None show ?thesis by (simp add: map_insert_or_assign_def map_find_def)
next
  case (Some e)
  have "map_of (map (\<lambda>(k', v'). if k' = k then (k', v) else (k', v')) m) k' =
        (if k' = k \<and> map_of m k \<noteq> None then Some v else map_of m k')"
    by (induction m) auto
  with Some show ?thesis by (simp add: map_insert_or_assign_def map_find_def)
qed

lemma map_insert_or_assign_inserted:
  "snd (map_insert_or_assign k v m) = (map_find k m = None)"
  by (simp add: map_insert_or_assign_def split: option.splits)

lemma map_insert_or_assign_length:
  "length (fst (map_insert_or_assign k v m)) =
     (if map_find k m = None then Suc (length m) else length m)"
  by (simp add: map_insert_or_assign_def split: option.splits)

lemma map_find_erase:
  "map_find k' (map_erase k m) = (if k' = k then None else map_find k' m)"
  unfolding map_find_def map_erase_def by (induction m) auto

lemma map_erase_absent: "map_find k m = None \<Longrightarrow> map_erase k m = m"
  unfolding map_find_def map_erase_def
  by (induction m) (auto split: if_splits)

lemma map_erase_length:
  "distinct (map fst m) \<Longrightarrow> map_find k m \<noteq> None \<Longrightarrow> Suc (length (map_erase k m)) = length m"
  unfolding map_find_def map_erase_def
proof (induction m)
  case Nil
  then show ?case by simp
next
  case (Cons p m)
  obtain k' e where p: "p = (k', e)" by (cases p)
  show ?case
  proof (cases "k' = k")
    case True
    with Cons.prems p have "k \<notin> fst ` set m" by auto
    then have "filter (\<lambda>(k', _). k' \<noteq> k) m = m"
      by (force simp: filter_id_conv)
    with True p show ?thesis by simp
  next
    case False
    with Cons p show ?thesis by auto
  qed
qed

lemma map_of_filter_distinct:
  "distinct (map fst m) \<Longrightarrow>
   map_of (filter P m) k = (case map_of m k of None \<Rightarrow> None
                            | Some e \<Rightarrow> if P (k, e) then Some e else None)"
proof (induction m)
  case Nil
  then show ?case by simp
next
  case (Cons p m)
  obtain k' e where p: "p = (k', e)" by (cases p)
  from Cons.prems p have notin: "k' \<notin> fst ` set m" by simp
  have "map_of (filter P m) k' = None"
    using notin by (auto simp: map_of_eq_None_iff)
  with Cons p show ?case by (auto split: option.splits)
qed

lemma map_inv_insert_or_assign:
  assumes "map_inv m"
  shows "map_inv (fst (map_insert_or_assign k v m))"
proof (cases "map_find k m")
  case None
  then have "k \<notin> fst ` set m" by (simp add: map_find_def map_of_eq_None_iff)
  moreover have "map fst (insort_key fst (k, v) m) = insort k (map fst m)"
    by (induction m) auto
  ultimately show ?thesis using assms None
    by (simp add: map_inv_def map_insert_or_assign_def sorted_insort distinct_insort)
next
  case (Some e)
  have keys: "map fst (map (\<lambda>(k', v'). if k' = k then (k', v) else (k', v')) m) = map fst m"
    by (induction m) auto
  from Some have eq: "fst (map_insert_or_assign k v m) =
      map (\<lambda>(k', v'). if k' = k then (k', v) else (k', v')) m"
    by (simp add: map_insert_or_assign_def)
  show ?thesis
    unfolding map_inv_def eq keys using assms[unfolded map_inv_def] .
qed

lemma map_inv_filter: "map_inv m \<Longrightarrow> map_inv (filter P m)"
  unfolding map_inv_def
  by (induction m) (auto)

lemma map_inv_erase: "map_inv m \<Longrightarrow> map_inv (map_erase k m)"
  unfolding map_erase_def by (rule map_inv_filter)

subsection \<open>The sweep loop\<close>

lemma erase_expired_loop_filter:
  "erase_expired_loop now i m = take i m @ filter (\<lambda>(k, e). \<not> expiration e \<le> now) (drop i m)"
proof (induction now i m rule: erase_expired_loop.induct)
  case (1 now iter m)
  note unfold = erase_expired_loop.simps[of now iter m]
  show ?case
  proof (cases "iter < length m")
    case False
    then show ?thesis by (simp add: unfold)
  next
    case True
    then have d: "drop iter m = m ! iter # drop (Suc iter) m"
      by (simp add: Cons_nth_drop_Suc)
    show ?thesis
    proof (cases "expiration (snd (m ! iter)) \<le> now")
      case True
      with \<open>iter < length m\<close> 1 d show ?thesis
        by (simp add: unfold map_erase_at_def split_beta)
    next
      case False
      with \<open>iter < length m\<close> 1 d show ?thesis
        by (simp add: unfold split_beta take_Suc_conv_app_nth)
    qed
  qed
qed


lemma erase_expired_entries_filter:
  "erase_expired_entries now m =
     filter (\<lambda>(k, e). \<not> expiration e \<le> current_timestamp_in_seconds now) m"
  unfolding erase_expired_entries_def erase_expired_loop_filter by simp

subsection \<open>Clock arithmetic\<close>

lemma wrap64_id: "- (2 ^ 63) \<le> x \<Longrightarrow> x < 2 ^ 63 \<Longrightarrow> wrap64 x = x"
  by (simp add: wrap64_def)

lemma ticks_per_second_pos: "0 < ticks_per_second"
  by (simp add: ticks_per_second_def)

lemma duration_cast_seconds_nonneg: "0 \<le> t \<Longrightarrow> duration_cast_seconds t = t div ticks_per_second"
  by (cases "t = 0") (simp_all add: duration_cast_seconds_def)

lemma duration_cast_seconds_mono: "s \<le> t \<Longrightarrow> duration_cast_seconds s \<le> duration_cast_seconds t"
proof -
  assume st: "s \<le> t"
  note R = ticks_per_second_pos
  have neg: "duration_cast_seconds x = - ((- x) div ticks_per_second)" if "x < 0" for x
    using that by (simp add: duration_cast_seconds_def)
  have pos: "0 \<le> x div ticks_per_second" if "0 \<le> x" for x
    using that R by (simp add: pos_imp_zdiv_nonneg_iff)
  consider "0 \<le> s" | "s < 0" "t < 0" | "s < 0" "0 \<le> t" by linarith
  then show ?thesis
  proof cases
    case 1
    with st R show ?thesis by (simp add: duration_cast_seconds_nonneg zdiv_mono1)
  next
    case 2
    with st R have "(- t) div ticks_per_second \<le> (- s) div ticks_per_second"
      by (simp add: zdiv_mono1)
    with 2 show ?thesis by (simp add: neg)
  next
    case 3
    then have "0 \<le> (- s) div ticks_per_second" using pos[of "- s"] by simp
    moreover have "0 \<le> t div ticks_per_second" using 3 pos by simp
    ultimately show ?thesis using 3 by (simp add: neg duration_cast_seconds_nonneg)
  qed
qed


lemma alias_ctor_fields:
  "alias_ctor a x t = Inr e \<Longrightarrow> expiration e = x \<and> expires_after e = t"
  by (auto simp: alias_ctor_def split: sum.splits)

subsection \<open>The entry constructor, continued\<close>

lemma alias_ctor_entry: "length a \<le> hostname_size \<Longrightarrow> alias_ctor a x t = Inr (entry (c_str a) x t)"
  by (simp add: alias_ctor_fits entry_def)

subsection \<open>Sequences of calls\<close>

lemma insert_or_assign_Inr:
  assumes "insert_or_assign now key' a ttl m = Inr (m', b)"
  shows "\<exists>k e. key_type_ctor key' = Inr k
            \<and> alias_ctor a (duration_cast_seconds (wrap64 (now + wrap64 (ttl * ticks_per_second)))) ttl
              = Inr e
            \<and> m' = fst (map_insert_or_assign k e m)"
  using assms by (auto simp: insert_or_assign_def Let_def split: sum.splits)

lemma erase_Inr:
  assumes "erase key' m = Inr m'"
  shows "\<exists>k. key_type_ctor key' = Inr k \<and> m' = map_erase k m"
  using assms by (auto simp: erase_def split: sum.splits)

lemma step_map_inv:
  assumes "map_inv m" and "step c m = Inr m'"
  shows "map_inv m'"
proof (cases c)
  case (Insert_or_assign now key' a ttl)
  with assms(2) obtain b where "insert_or_assign now key' a ttl m = Inr (m', b)"
    by (auto split: sum.splits)
  then obtain k e where "m' = fst (map_insert_or_assign k e m)"
    using insert_or_assign_Inr by blast
  with assms(1) show ?thesis by (simp add: map_inv_insert_or_assign)
next
  case (Lookup now key')
  with assms show ?thesis by (auto split: sum.splits)
next
  case (Erase key')
  with assms(2) have "erase key' m = Inr m'" by simp
  then obtain k where "m' = map_erase k m"
    using erase_Inr by blast
  with assms(1) show ?thesis by (simp add: map_inv_erase)
next
  case (Erase_expired_entries now)
  with assms show ?thesis by (auto simp: erase_expired_entries_filter map_inv_filter)
next
  case Clear
  with assms show ?thesis by (auto simp: clear_def map_inv_def)
next
  case Size
  with assms show ?thesis by simp
qed

lemma step_find:
  assumes "map_inv m" and "step c m = Inr m'" and "map_find k m' = Some e"
  shows "(\<exists>r. insert_for k c = Some r \<and> written_by e r)
         \<or> (insert_for k c = None \<and> map_find k m = Some e)"
proof (cases c)
  case (Insert_or_assign now key' a ttl)
  let ?x = "duration_cast_seconds (wrap64 (now + wrap64 (ttl * ticks_per_second)))"
  from Insert_or_assign assms(2) obtain b where "insert_or_assign now key' a ttl m = Inr (m', b)"
    by (auto split: sum.splits)
  then obtain k0 e' where k0: "key_type_ctor key' = Inr k0"
    and e': "alias_ctor a ?x ttl = Inr e'"
    and m': "m' = fst (map_insert_or_assign k0 e' m)"
    using insert_or_assign_Inr by blast
  show ?thesis
  proof (cases "k0 = k")
    case True
    with assms(3) m' have "e = e'" by (simp add: map_find_insert_or_assign)
    with e' alias_ctor_fields[OF e'] have "written_by e (now, a, ttl)"
      by (simp add: written_by_def)
    with True k0 Insert_or_assign show ?thesis by simp
  next
    case False
    with assms(3) m' have "map_find k m = Some e" by (simp add: map_find_insert_or_assign)
    with False k0 Insert_or_assign show ?thesis by simp
  qed
next
  case (Lookup now key')
  with assms show ?thesis by (auto split: sum.splits)
next
  case (Erase key')
  with assms(2) have "erase key' m = Inr m'" by simp
  then obtain k0 where "m' = map_erase k0 m"
    using erase_Inr by blast
  with assms(3) Erase show ?thesis by (auto simp: map_find_erase split: if_splits)
next
  case (Erase_expired_entries now)
  from assms(1) have "distinct (map fst m)" by (simp add: map_inv_def)
  from map_of_filter_distinct[OF this, of _ k] Erase_expired_entries assms(2,3)
  show ?thesis
    by (auto simp: erase_expired_entries_filter map_find_def split: option.splits if_splits)
next
  case Clear
  with assms show ?thesis by (auto simp: clear_def map_find_def)
next
  case Size
  with assms show ?thesis by simp
qed

lemma run_find:
  assumes "map_inv m0" and "run cs m0 = Inr m" and "map_find k m = Some e"
  shows "(\<exists>r. last_insert k cs = Some r \<and> written_by e r)
         \<or> (last_insert k cs = None \<and> map_find k m0 = Some e)"
  using assms
proof (induction cs arbitrary: m0)
  case Nil
  then show ?case by simp
next
  case (Cons c cs)
  from Cons.prems(2) obtain m1 where s: "step c m0 = Inr m1" and r: "run cs m1 = Inr m"
    by (auto split: sum.splits)
  have inv1: "map_inv m1" using step_map_inv[OF Cons.prems(1) s] .
  from Cons.IH[OF inv1 r Cons.prems(3)]
  show ?case
  proof
    assume "\<exists>r. last_insert k cs = Some r \<and> written_by e r"
    then show ?thesis by auto
  next
    assume a: "last_insert k cs = None \<and> map_find k m1 = Some e"
    with step_find[OF Cons.prems(1) s] show ?thesis by auto
  qed
qed

lemma run_map_inv: "map_inv m0 \<Longrightarrow> run cs m0 = Inr m \<Longrightarrow> map_inv m"
proof (induction cs arbitrary: m0)
  case Nil
  then show ?case by simp
next
  case (Cons c cs)
  then show ?case by (auto split: sum.splits dest: step_map_inv)
qed

lemma step_lookup_frame: "is_lookup c \<Longrightarrow> step c m = Inr m' \<Longrightarrow> m' = m"
  by (cases c) (auto split: sum.splits)

lemma run_without_lookups:
  "run cs m0 = Inr m \<Longrightarrow> run (filter (\<lambda>c. \<not> is_lookup c) cs) m0 = Inr m"
proof (induction cs arbitrary: m0)
  case Nil
  then show ?case by simp
next
  case (Cons c cs)
  from Cons.prems obtain m1 where s: "step c m0 = Inr m1" and r: "run cs m1 = Inr m"
    by (auto split: sum.splits)
  show ?case
  proof (cases "is_lookup c")
    case True
    from True s have "m1 = m0" by (rule step_lookup_frame)
    with True r Cons.IH show ?thesis by simp
  next
    case False
    with s r Cons.IH show ?thesis by simp
  qed
qed

subsection \<open>The life cycle\<close>

lemma deinit_try_marker:
  "deinit_try env (g, os) = Inr (g', os') \<Longrightarrow> g_owner_pid g' = 0"
  "deinit_try env (g, os) = Inl (e, g', os') \<Longrightarrow> g_owner_pid g' = 0"
  by (auto simp: deinit_try_def destroy_map_def Let_def named_sharable_mutex_remove_def
      shared_memory_object_remove_def destroy_ptr_def
      split: option.splits sum.splits if_splits prod.splits)

lemma deinit_try_quiet:
  assumes "\<forall>c. \<not> env c" and "handles_ok g"
  shows "deinit_try env (g, os) =
     Inr (g\<lparr>g_owner_pid := 0, g_map := None, g_mutex := None, g_allocator := None,
            g_segment := None\<rparr>,
          (case (g_segment g, g_map g) of
             (Some s, Some p) \<Rightarrow> set_seg_map p None os
           | _ \<Rightarrow> os)
          \<lparr>mutex_names := mutex_names os - {g_mutex_name g},
           shm_names := (shm_names os)(g_segment_name g := None)\<rparr>)"
  using assms
  by (auto simp: deinit_try_def destroy_map_def Let_def named_sharable_mutex_remove_def handles_ok_def
      shared_memory_object_remove_def destroy_ptr_def set_seg_map_def
      split: option.splits)

lemma deinit_returns: "\<exists>w'. deinit env pid w = Inr w'"
  by (auto simp: deinit_def split: sum.splits)

lemma deinit_marker:
  assumes "pid = g_owner_pid g" and "deinit env pid (g, os) = Inr (g', os')"
  shows "g_owner_pid g' = 0"
  using assms deinit_try_marker[of env g os]
  by (auto simp: deinit_def split: sum.splits if_splits)

lemma handles_ok_deinit:
  assumes "handles_ok g" and "deinit env pid (g, os) = Inr (g', os')"
  shows "handles_ok g'"
  using assms
  by (auto simp: deinit_def deinit_try_def destroy_map_def Let_def handles_ok_def
      named_sharable_mutex_remove_def shared_memory_object_remove_def destroy_ptr_def
      split: sum.splits if_splits option.splits prod.splits)

lemma handles_ok_init:
  assumes "handles_ok g"
  shows "init env pid n sz (g, os) = Inr (g', os') \<Longrightarrow> handles_ok g'"
    and "init env pid n sz (g, os) = Inl (e, g', os') \<Longrightarrow> handles_ok g'"
  using assms
  by (auto simp: init_def Let_def handles_ok_def
      named_sharable_mutex_remove_def shared_memory_object_remove_def
      managed_shared_memory_create_def named_sharable_mutex_create_def construct_map_def
      split: sum.splits if_splits option.splits prod.splits)

lemma init_quiet:
  assumes "pid \<noteq> g_owner_pid g" and "\<forall>c. \<not> env c"
  shows "init env pid n sz (g, os) =
     Inr (g\<lparr>g_segment_name := c_str n, g_segment_size := sz,
            g_mutex_name := c_str n @ ''_mutex'', g_owner_pid := pid,
            g_segment := Some (next_segment os), g_allocator := Some (next_segment os),
            g_mutex := Some (c_str n @ ''_mutex''), g_map := Some (next_segment os)\<rparr>,
          os\<lparr>mutex_names := insert (c_str n @ ''_mutex'') (mutex_names os),
             shm_names := (shm_names os)(c_str n \<mapsto> next_segment os),
             segments := (segments os)(next_segment os \<mapsto> \<lparr>seg_size = sz, seg_map = Some []\<rparr>),
             next_segment := Suc (next_segment os)\<rparr>)"
  using assms
  by (simp add: init_def Let_def named_sharable_mutex_remove_def shared_memory_object_remove_def
      managed_shared_memory_create_def named_sharable_mutex_create_def construct_map_def
      set_seg_map_def)

text \<open>The sample world is what \<open>init\<close> builds on a fresh system, with one entry cached.\<close>

lemma init_from_boot:
  "init quiet 42 ''hc'' 4096 (globals_zero, os_boot) =
     Inr (fst sample_world,
          (snd sample_world)\<lparr>segments := [0 \<mapsto> \<lparr>seg_size = 4096, seg_map = Some []\<rparr>]\<rparr>)"
proof -
  have c: "c_str ''hc'' = ''hc''" by (simp add: c_str_def NUL_def)
  have "(42::int) \<noteq> g_owner_pid globals_zero" by (simp add: globals_zero_def)
  moreover have "\<forall>c. \<not> quiet c" by (simp add: quiet_def)
  ultimately show ?thesis
    using init_quiet[of 42 globals_zero quiet "''hc''" 4096 os_boot]
    by (simp add: c globals_zero_def os_boot_def sample_world_def)
qed

subsection \<open>The bounds of the array and of the clock\<close>

text \<open>
  What the entry constructor does at the size of the array, what whole seconds and 64-bit
  ticks do to a time to live, and that an entry past its time to live is not returned.
\<close>

lemma alias_ctor_faults_iff:
  "alias_ctor a x t = Inl Out_of_bounds_write \<longleftrightarrow> hostname_size < length a"
proof (cases "hostname_size < length a")
  case True
  then show ?thesis by (simp add: alias_ctor_overflow)
next
  case False
  then have "length a \<le> hostname_size" by simp
  then show ?thesis using False by (simp add: alias_ctor_entry)
qed

lemma alias_ctor_array_size:
  "alias_ctor a x t = Inr e \<Longrightarrow> length (hostname e) = hostname_size"
proof -
  assume r: "alias_ctor a x t = Inr e"
  then have "\<not> hostname_size < length a" by (auto simp: alias_ctor_overflow)
  then have fits: "length a \<le> hostname_size" by simp
  with r have "e = entry (c_str a) x t" by (simp add: alias_ctor_entry)
  moreover have "length (c_str a) \<le> hostname_size" using c_str_length[of a] fits by simp
  ultimately show ?thesis by (simp add: entry_def)
qed

lemma lookup_expired_absent:
  assumes "0 \<le> now" and "0 \<le> ttl" and "now + ttl * ticks_per_second < 2 ^ 63"
    and "length v \<le> hostname_size"
    and "now + ttl * ticks_per_second \<le> now'"
  shows "\<exists>m' inserted. insert_or_assign now (view_of k) v ttl m = Inr (m', inserted)
           \<and> lookup now' (view_of k) m' = Inr None"
proof -
  let ?x = "duration_cast_seconds (wrap64 (now + wrap64 (ttl * ticks_per_second)))"
  let ?e = "entry (c_str v) ?x ttl"
  let ?r = "map_insert_or_assign (c_str k) ?e m"
  have ins: "insert_or_assign now (view_of k) v ttl m = Inr (fst ?r, snd ?r)"
    using assms(4) by (simp add: insert_or_assign_def alias_ctor_entry key_type_ctor_view_of)
  have t: "0 \<le> ttl * ticks_per_second" using assms(2) ticks_per_second_pos by simp
  have "wrap64 (ttl * ticks_per_second) = ttl * ticks_per_second"
    using assms t by (intro wrap64_id) simp_all
  moreover have "wrap64 (now + ttl * ticks_per_second) = now + ttl * ticks_per_second"
    using assms t by (intro wrap64_id) simp_all
  ultimately have "?x = duration_cast_seconds (now + ttl * ticks_per_second)" by simp
  also have "\<dots> \<le> duration_cast_seconds now'"
    using assms(5) by (rule duration_cast_seconds_mono)
  finally have "expiration ?e \<le> current_timestamp_in_seconds now'"
    by (simp add: entry_def current_timestamp_in_seconds_def)
  moreover have "map_find (c_str k) (fst ?r) = Some ?e"
    by (simp add: map_find_insert_or_assign)
  ultimately have "lookup now' (view_of k) (fst ?r) = Inr None"
    by (simp add: lookup_def key_type_ctor_view_of)
  with ins show ?thesis by blast
qed

lemma c_str_literals:
  "c_str ''k'' = ''k''" "c_str ''v'' = ''v''"
  by (simp_all add: c_str_def NUL_def)

lemma whole_seconds_shorten_ttl:
  "insert_or_assign 1500000000 (view_of ''k'') ''v'' 1 [] = Inr ([(''k'', entry ''v'' 2 1)], True)
   \<and> lookup 2200000000 (view_of ''k'') [(''k'', entry ''v'' 2 1)] = Inr None"
proof -
  have "duration_cast_seconds (wrap64 (1500000000 + wrap64 (1 * ticks_per_second))) = 2"
    by (simp add: duration_cast_seconds_def wrap64_def ticks_per_second_def)
  moreover have "alias_ctor ''v'' 2 1 = Inr (entry ''v'' 2 1)"
    using alias_ctor_entry[of "''v''" 2 1] by (simp add: c_str_literals hostname_size_def)
  ultimately have "insert_or_assign 1500000000 (view_of ''k'') ''v'' 1 []
      = Inr ([(''k'', entry ''v'' 2 1)], True)"
    by (simp add: insert_or_assign_def map_insert_or_assign_def map_find_def
        key_type_ctor_view_of c_str_literals)
  moreover have "lookup 2200000000 (view_of ''k'') [(''k'', entry ''v'' 2 1)] = Inr None"
    by (simp add: lookup_def map_find_def key_type_ctor_view_of c_str_literals
        current_timestamp_in_seconds_def duration_cast_seconds_def ticks_per_second_def entry_def)
  ultimately show ?thesis by simp
qed

lemma huge_ttl_wraps:
  "insert_or_assign 1500000000 (view_of ''k'') ''v'' (2 ^ 62) []
     = Inr ([(''k'', entry ''v'' 1 (2 ^ 62))], True)
   \<and> lookup 1500000000 (view_of ''k'') [(''k'', entry ''v'' 1 (2 ^ 62))] = Inr None"
proof -
  have "duration_cast_seconds (wrap64 (1500000000 + wrap64 (2 ^ 62 * ticks_per_second))) = 1"
    by (simp add: duration_cast_seconds_def wrap64_def ticks_per_second_def)
  moreover have "alias_ctor ''v'' 1 (2 ^ 62) = Inr (entry ''v'' 1 (2 ^ 62))"
    using alias_ctor_entry[of "''v''" 1 "2 ^ 62"] by (simp add: c_str_literals hostname_size_def)
  ultimately have "insert_or_assign 1500000000 (view_of ''k'') ''v'' (2 ^ 62) []
      = Inr ([(''k'', entry ''v'' 1 (2 ^ 62))], True)"
    by (simp add: insert_or_assign_def map_insert_or_assign_def map_find_def
        key_type_ctor_view_of c_str_literals)
  moreover have "lookup 1500000000 (view_of ''k'') [(''k'', entry ''v'' 1 (2 ^ 62))] = Inr None"
    by (simp add: lookup_def map_find_def key_type_ctor_view_of c_str_literals
        current_timestamp_in_seconds_def duration_cast_seconds_def ticks_per_second_def entry_def)
  ultimately show ?thesis by simp
qed

lemma full_array_read_faults:
  assumes "NUL \<notin> set a" and "length a = hostname_size"
    and "current_timestamp_in_seconds now' <
         duration_cast_seconds (wrap64 (now + wrap64 (ttl * ticks_per_second)))"
  shows "\<exists>m' inserted. insert_or_assign now (view_of k) a ttl m = Inr (m', inserted)
           \<and> lookup now' (view_of k) m' = Inl Out_of_bounds_read"
proof -
  let ?x = "duration_cast_seconds (wrap64 (now + wrap64 (ttl * ticks_per_second)))"
  let ?e = "entry (c_str a) ?x ttl"
  let ?r = "map_insert_or_assign (c_str k) ?e m"
  have ins: "insert_or_assign now (view_of k) a ttl m = Inr (fst ?r, snd ?r)"
    using assms(2) by (simp add: insert_or_assign_def alias_ctor_entry key_type_ctor_view_of)
  have "hostname ?e = a" using assms(1,2) by (simp add: entry_def c_str_id)
  then have "string_from_buffer (hostname ?e) = Inl Out_of_bounds_read"
    using assms(1) by (simp add: string_from_buffer_def)
  moreover have "map_find (c_str k) (fst ?r) = Some ?e"
    by (simp add: map_find_insert_or_assign)
  moreover have "current_timestamp_in_seconds now' < expiration ?e"
    using assms(3) by (simp add: entry_def)
  ultimately have "lookup now' (view_of k) (fst ?r) = Inl Out_of_bounds_read"
    by (simp add: lookup_def key_type_ctor_view_of)
  with ins show ?thesis by blast
qed

lemma handles_ok_zero: "handles_ok globals_zero"
  by (simp add: handles_ok_def globals_zero_def)

lemma alias_ctor_reads_back:
  assumes "alias_ctor a x t = Inr e" and "length a < hostname_size"
  shows "string_from_buffer (hostname e) = Inr (c_str a)"
proof -
  from assms have "e = entry (c_str a) x t" by (simp add: alias_ctor_entry)
  moreover have "length (c_str a) < hostname_size" using c_str_length[of a] assms(2) by simp
  ultimately show ?thesis
    using c_str_no_NUL[of a] by (simp add: entry_def string_from_buffer_padded)
qed

subsection \<open>Stores on the object\<close>

lemma store_object_hostname:
  "i + length bs \<le> 256 \<Longrightarrow> length (hostname e) = 256 \<Longrightarrow>
   store_object (enumerate i bs @ ws) e =
   store_object ws
     (e\<lparr>hostname := take i (hostname e) @ bs @ drop (i + length bs) (hostname e)\<rparr>)"
proof (induction bs arbitrary: i e)
  case Nil
  then show ?case by simp
next
  case (Cons b bs)
  let ?e = "e\<lparr>hostname := (hostname e)[i := b]\<rparr>"
  from Cons.prems have i: "i < 256" "i < length (hostname e)" by simp_all
  from Cons.prems have "Suc i + length bs \<le> 256" "length (hostname ?e) = 256" by simp_all
  then have "store_object (enumerate (Suc i) bs @ ws) ?e =
     store_object ws
       (?e\<lparr>hostname := take (Suc i) (hostname ?e) @ bs @ drop (Suc i + length bs) (hostname ?e)\<rparr>)"
    by (rule Cons.IH)
  moreover have "take (Suc i) (hostname ?e) = take i (hostname e) @ [b]"
    using i by (simp add: take_Suc_conv_app_nth)
  moreover have "drop (Suc i + length bs) (hostname ?e) = drop (i + length (b # bs)) (hostname e)"
    by simp
  ultimately show ?case using i by simp
qed

lemma alias_ctor_object_one_past:
  assumes "c \<noteq> NUL"
  shows "alias_ctor_object (replicate 257 c) x t =
         Inr \<lparr>hostname = replicate 256 c, expiration = set_byte 0 c x, expires_after = t\<rparr>"
proof -
  let ?e = "\<lparr>hostname = replicate hostname_size NUL, expiration = x, expires_after = t\<rparr>"
  have "NUL \<notin> set (replicate 257 c)" using assms by auto
  then have "c_str (replicate 257 c) = replicate 257 c" by (rule c_str_id)
  then have "strncpy (replicate 257 c) (length (replicate 257 c)) = enumerate 0 (replicate 257 c)"
    unfolding strncpy_whole by simp
  moreover have r: "replicate 257 c = replicate 256 c @ [c]"
    using replicate_add[of 256 1 c] by simp
  moreover have "enumerate 0 (replicate 256 c @ [c]) = enumerate 0 (replicate 256 c) @ [(256, c)]"
    by (simp add: enumerate_append_eq)
  ultimately have s: "strncpy (replicate 257 c) (length (replicate 257 c))
      = enumerate 0 (replicate 256 c) @ [(256, c)]"
    by (simp only:)
  have "store_object (enumerate 0 (replicate 256 c) @ [(256, c)]) ?e =
        store_object [(256, c)]
          (?e\<lparr>hostname := take 0 (hostname ?e) @ replicate 256 c
                 @ drop (0 + length (replicate 256 c)) (hostname ?e)\<rparr>)"
    by (rule store_object_hostname) (simp_all add: hostname_size_def)
  also have "\<dots> = Inr \<lparr>hostname = replicate 256 c, expiration = set_byte 0 c x, expires_after = t\<rparr>"
    by (simp add: hostname_size_def)
  finally show ?thesis unfolding alias_ctor_object_def s .
qed

subsection \<open>The operations on a key that the code reads as intended\<close>

text \<open>
  Where the array of the key view holds a NUL, the code reads the key \<open>s\<close> up to it. The
  operations are then those of the map at \<open>s\<close>.
\<close>

lemma lookup_Some_iff:
  assumes "key_type_ctor k = Inr s"
  shows "lookup now k m = Inr (Some a) \<longleftrightarrow>
      (\<exists>e. map_find s m = Some e
           \<and> current_timestamp_in_seconds now < expiration e
           \<and> string_from_buffer (hostname e) = Inr a)"
  using assms by (auto simp: lookup_def split: option.splits sum.splits)

lemma lookup_None_iff:
  assumes "key_type_ctor k = Inr s"
  shows "lookup now k m = Inr None \<longleftrightarrow>
      (map_find s m = None
       \<or> (\<exists>e. map_find s m = Some e \<and> expiration e \<le> current_timestamp_in_seconds now))"
  using assms by (auto simp: lookup_def split: option.splits sum.splits)

lemma insert_or_assign_fits:
  assumes "length v \<le> hostname_size" and "key_type_ctor k = Inr s"
  shows "\<exists>m' e. insert_or_assign now k v ttl m = Inr (m', map_find s m = None)
           \<and> map_find s m' = Some e
           \<and> hostname e = c_str v @ replicate (hostname_size - length (c_str v)) NUL
           \<and> expiration e = duration_cast_seconds (wrap64 (now + wrap64 (ttl * ticks_per_second)))
           \<and> expires_after e = ttl
           \<and> (\<forall>k'. k' \<noteq> s \<longrightarrow> map_find k' m' = map_find k' m)
           \<and> size_entries m' =
               (if map_find s m = None then Suc (size_entries m) else size_entries m)"
proof -
  let ?x = "duration_cast_seconds (wrap64 (now + wrap64 (ttl * ticks_per_second)))"
  let ?e = "entry (c_str v) ?x ttl"
  let ?r = "map_insert_or_assign s ?e m"
  have ins: "insert_or_assign now k v ttl m = Inr ?r"
    using assms by (simp add: insert_or_assign_def alias_ctor_entry)
  have r: "?r = (fst ?r, map_find s m = None)"
    using map_insert_or_assign_inserted[of s ?e m] by (simp add: prod_eq_iff)
  have "insert_or_assign now k v ttl m = Inr (fst ?r, map_find s m = None)"
    using ins r by simp
  moreover have "map_find s (fst ?r) = Some ?e"
    by (simp add: map_find_insert_or_assign)
  moreover have "\<forall>k'. k' \<noteq> s \<longrightarrow> map_find k' (fst ?r) = map_find k' m"
    by (simp add: map_find_insert_or_assign)
  moreover have "size_entries (fst ?r) =
      (if map_find s m = None then Suc (size_entries m) else size_entries m)"
    by (simp add: size_entries_def map_insert_or_assign_length)
  moreover have "hostname ?e = c_str v @ replicate (hostname_size - length (c_str v)) NUL"
    "expiration ?e = ?x" "expires_after ?e = ttl"
    by (simp_all add: entry_def)
  ultimately show ?thesis by blast
qed

lemma erase_at_key:
  assumes "key_type_ctor k = Inr s"
  shows "erase k m = Inr (map_erase s m)"
    and "map_find s m = None \<Longrightarrow> erase k m = Inr m"
    and "map_find k' (map_erase s m) = (if k' = s then None else map_find k' m)"
    and "lookup now k (map_erase s m) = Inr None"
  using assms by (simp_all add: erase_def map_erase_absent map_find_erase lookup_def)

text \<open>
  In a state that a sequence of calls reaches from the empty cache without a fault, every
  entry is the one written by the most recent \<open>insert_or_assign\<close> for its key, and the
  lookups of the sequence have no part in it.
\<close>

lemma run_entries_written_by_last_insert:
  assumes "run cs [] = Inr m" and "map_find k m = Some e"
  shows "\<exists>now a ttl. last_insert k cs = Some (now, a, ttl)
           \<and> expiration e = duration_cast_seconds (wrap64 (now + wrap64 (ttl * ticks_per_second)))
           \<and> expires_after e = ttl
           \<and> alias_ctor a (expiration e) ttl = Inr e"
proof -
  have "map_inv []" by (simp add: map_inv_def)
  from run_find[OF this assms] obtain r where r: "last_insert k cs = Some r" "written_by e r"
    by (auto simp: map_find_def)
  obtain now a ttl where "r = (now, a, ttl)" by (cases r)
  with r show ?thesis by (auto simp: written_by_def)
qed

text \<open>The sample sequence: two insertions for one key, each followed by a lookup.\<close>

lemma run_sample_calls:
  "run sample_calls [] = Inr [(''host1'', entry ''5.6.7.8'' 39 30)]
   \<and> last_insert ''host1'' sample_calls = Some (9000000000, ''5.6.7.8'', 30)
   \<and> run (filter (\<lambda>c. \<not> is_lookup c) sample_calls) [] = Inr [(''host1'', entry ''5.6.7.8'' 39 30)]"
proof -
  have k: "key_type_ctor (view_of ''host1'') = Inr ''host1''"
    by (simp add: key_type_ctor_view_of c_str_def NUL_def)
  have c: "c_str ''1.2.3.4'' = ''1.2.3.4''" "c_str ''5.6.7.8'' = ''5.6.7.8''"
    by (simp_all add: c_str_def NUL_def)
  have t: "duration_cast_seconds (wrap64 (1500000000 + wrap64 (60 * ticks_per_second))) = 61"
    "duration_cast_seconds (wrap64 (9000000000 + wrap64 (30 * ticks_per_second))) = 39"
    "current_timestamp_in_seconds 2000000000 = 2" "current_timestamp_in_seconds 9500000000 = 9"
    by (simp_all add: duration_cast_seconds_def wrap64_def ticks_per_second_def
        current_timestamp_in_seconds_def)
  have a: "alias_ctor ''1.2.3.4'' 61 60 = Inr (entry ''1.2.3.4'' 61 60)"
    "alias_ctor ''5.6.7.8'' 39 30 = Inr (entry ''5.6.7.8'' 39 30)"
    using alias_ctor_entry[of "''1.2.3.4''" 61 60] alias_ctor_entry[of "''5.6.7.8''" 39 30]
    by (simp_all add: c hostname_size_def)
  have i1: "insert_or_assign 1500000000 (view_of ''host1'') ''1.2.3.4'' 60 []
            = Inr ([(''host1'', entry ''1.2.3.4'' 61 60)], True)"
    by (simp add: insert_or_assign_def t a k map_insert_or_assign_def map_find_def)
  have i2: "insert_or_assign 9000000000 (view_of ''host1'') ''5.6.7.8'' 30
              [(''host1'', entry ''1.2.3.4'' 61 60)]
            = Inr ([(''host1'', entry ''5.6.7.8'' 39 30)], False)"
    by (simp add: insert_or_assign_def t a k map_insert_or_assign_def map_find_def)
  have s1: "string_from_buffer (hostname (entry ''1.2.3.4'' 61 60)) = Inr ''1.2.3.4''"
    "string_from_buffer (hostname (entry ''5.6.7.8'' 39 30)) = Inr ''5.6.7.8''"
    by (simp_all add: entry_def hostname_size_def string_from_buffer_def NUL_def)
  have l1: "lookup 2000000000 (view_of ''host1'') [(''host1'', entry ''1.2.3.4'' 61 60)]
            = Inr (Some ''1.2.3.4'')"
    by (simp add: lookup_def k t map_find_def s1) (simp add: entry_def)
  have l2: "lookup 9500000000 (view_of ''host1'') [(''host1'', entry ''5.6.7.8'' 39 30)]
            = Inr (Some ''5.6.7.8'')"
    by (simp add: lookup_def k t map_find_def s1) (simp add: entry_def)
  have r: "run sample_calls [] = Inr [(''host1'', entry ''5.6.7.8'' 39 30)]"
    by (simp add: sample_calls_def i1 i2 l1 l2)
  have li: "last_insert ''host1'' sample_calls = Some (9000000000, ''5.6.7.8'', 30)"
    by (simp add: sample_calls_def k)
  from r li run_without_lookups[OF r] show ?thesis by simp
qed

section \<open>The claims\<close>

subsection \<open>Lookup\<close>

text \<open>
  C1 says that \<open>lookup\<close> returns the stored alias whenever the map has an entry for the key
  and the entry has not expired. The code does not, at two inputs.
  \<^item> The alias has 256 characters. The constructor of the entry bounds its copy by the
    length of the alias, not by the size of the array: the copy fills the array and leaves
    no terminating NUL. The entry is in the map and has not expired; the lookup builds the
    string from the array as a C string and reads past the array.
  \<^item> The key is handed over as the view of the first five characters of
    \<open>host1.example\<close>. Its characters are \<open>host1\<close>, the map has a live entry for \<open>host1\<close>,
    and the lookup returns absent: the key it searches is built from the pointer of the
    view alone and is \<open>host1.example\<close>.
\<close>

theorem lookup_live_entry_not_returned:
  "insert_or_assign 1500000000 (view_of ''k'') (replicate 256 (CHR ''a'')) 60 []
     = Inr ([(''k'', entry (replicate 256 (CHR ''a'')) 61 60)], True)
   \<and> map_find ''k'' [(''k'', entry (replicate 256 (CHR ''a'')) 61 60)]
     = Some (entry (replicate 256 (CHR ''a'')) 61 60)
   \<and> current_timestamp_in_seconds 1500000000 < expiration (entry (replicate 256 (CHR ''a'')) 61 60)
   \<and> lookup 1500000000 (view_of ''k'') [(''k'', entry (replicate 256 (CHR ''a'')) 61 60)]
     = Inl Out_of_bounds_read
   \<and> chars (prefix_view ''host1.example'' 5) = ''host1''
   \<and> map_find ''host1'' [(''host1'', entry ''1.2.3.4'' 61 60)] = Some (entry ''1.2.3.4'' 61 60)
   \<and> current_timestamp_in_seconds 1500000000 < expiration (entry ''1.2.3.4'' 61 60)
   \<and> lookup 1500000000 (prefix_view ''host1.example'' 5) [(''host1'', entry ''1.2.3.4'' 61 60)]
     = Inr None"
proof -
  have n: "NUL \<notin> set (replicate 256 (CHR ''a''))" by (simp add: NUL_def)
  have c: "c_str (replicate 256 (CHR ''a'')) = replicate 256 (CHR ''a'')"
    using n by (rule c_str_id)
  have k: "key_type_ctor (view_of ''k'') = Inr ''k''"
    by (simp add: key_type_ctor_view_of c_str_def NUL_def)
  have x: "duration_cast_seconds (wrap64 (1500000000 + wrap64 (60 * ticks_per_second))) = 61"
    by (simp add: duration_cast_seconds_def wrap64_def ticks_per_second_def)
  have "alias_ctor (replicate 256 (CHR ''a'')) 61 60 = Inr (entry (replicate 256 (CHR ''a'')) 61 60)"
    using alias_ctor_entry[of "replicate 256 (CHR ''a'')" 61 60] c
    by (simp add: hostname_size_def)
  then have ins: "insert_or_assign 1500000000 (view_of ''k'') (replicate 256 (CHR ''a'')) 60 []
     = Inr ([(''k'', entry (replicate 256 (CHR ''a'')) 61 60)], True)"
    by (simp add: insert_or_assign_def x k map_insert_or_assign_def map_find_def)
  have f: "map_find ''k'' [(''k'', entry (replicate 256 (CHR ''a'')) 61 60)]
     = Some (entry (replicate 256 (CHR ''a'')) 61 60)"
    by (simp add: map_find_def)
  have now: "current_timestamp_in_seconds 1500000000 = 1"
    by (simp add: current_timestamp_in_seconds_def duration_cast_seconds_def ticks_per_second_def)
  have live: "current_timestamp_in_seconds 1500000000 < expiration (entry (replicate 256 (CHR ''a'')) 61 60)"
    "current_timestamp_in_seconds 1500000000 < expiration (entry ''1.2.3.4'' 61 60)"
    by (simp_all add: entry_def now)
  have "hostname (entry (replicate 256 (CHR ''a'')) 61 60) = replicate 256 (CHR ''a'')"
    by (simp add: entry_def hostname_size_def)
  then have "string_from_buffer (hostname (entry (replicate 256 (CHR ''a'')) 61 60))
      = Inl Out_of_bounds_read"
    using n by (simp add: string_from_buffer_def)
  with f live(1)
  have past: "lookup 1500000000 (view_of ''k'') [(''k'', entry (replicate 256 (CHR ''a'')) 61 60)]
      = Inl Out_of_bounds_read"
    by (simp add: lookup_def k)
  have v: "chars (prefix_view ''host1.example'' 5) = ''host1''"
    by (simp add: chars_prefix_view)
  have p: "key_type_ctor (prefix_view ''host1.example'' 5) = Inr ''host1.example''"
    by (simp add: key_type_ctor_prefix_view c_str_def NUL_def)
  have g: "map_find ''host1'' [(''host1'', entry ''1.2.3.4'' 61 60)] = Some (entry ''1.2.3.4'' 61 60)"
    by (simp add: map_find_def)
  have missed: "lookup 1500000000 (prefix_view ''host1.example'' 5)
      [(''host1'', entry ''1.2.3.4'' 61 60)] = Inr None"
    by (simp add: lookup_def p map_find_def)
  from ins f live past v g missed show ?thesis by blast
qed

subsection \<open>The sweep\<close>

text \<open>
  C2. \<open>erase_expired_entries\<close> keeps, in their order and unchanged, exactly the entries
  whose expiration is above the timestamp read at the start of the call, and removes the
  entries whose expiration is at or below it; the size decreases by the number of removed
  entries; with unique keys, a key is found afterwards exactly when it was found before
  with an expiration above the timestamp, and then with the same entry.
\<close>

theorem erase_expired_entries_exact:
  "erase_expired_entries now m =
     filter (\<lambda>(k, e). \<not> expiration e \<le> current_timestamp_in_seconds now) m
   \<and> size_entries (erase_expired_entries now m)
       + length (filter (\<lambda>(k, e). expiration e \<le> current_timestamp_in_seconds now) m)
     = size_entries m
   \<and> (distinct (map fst m) \<longrightarrow>
        (\<forall>k. map_find k (erase_expired_entries now m) =
          (case map_find k m of
             None \<Rightarrow> None
           | Some e \<Rightarrow> if expiration e \<le> current_timestamp_in_seconds now then None else Some e)))"
proof -
  let ?live = "\<lambda>(k :: key_type, e :: alias). \<not> expiration e \<le> current_timestamp_in_seconds now"
  have eq: "erase_expired_entries now m = filter ?live m"
    unfolding erase_expired_entries_def erase_expired_loop_filter by simp
  have "(\<lambda>(k :: key_type, e :: alias). expiration e \<le> current_timestamp_in_seconds now)
        = (\<lambda>p. \<not> ?live p)"
    by (simp add: fun_eq_iff)
  then have cnt: "size_entries (filter ?live m)
       + length (filter (\<lambda>(k, e). expiration e \<le> current_timestamp_in_seconds now) m)
     = size_entries m"
    using sum_length_filter_compl[of ?live m] by (simp add: size_entries_def)
  have find: "map_find k (filter ?live m) =
          (case map_find k m of
             None \<Rightarrow> None
           | Some e \<Rightarrow> if expiration e \<le> current_timestamp_in_seconds now then None else Some e)"
    if "distinct (map fst m)" for k
    using map_of_filter_distinct[OF that, of ?live k]
    by (simp add: map_find_def split: option.splits)
  show ?thesis using eq cnt find by simp
qed

text \<open>C2 on a map with one expired and one live entry.\<close>

theorem erase_expired_entries_exact_witness:
  "distinct (map fst [(''a'', entry ''x'' 50 10), (''b'', entry ''y'' 200 10)])
   \<and> erase_expired_entries 100000000000 [(''a'', entry ''x'' 50 10), (''b'', entry ''y'' 200 10)]
       = [(''b'', entry ''y'' 200 10)]
   \<and> size_entries (erase_expired_entries 100000000000
         [(''a'', entry ''x'' 50 10), (''b'', entry ''y'' 200 10)]) + 1 = 2
   \<and> map_find ''a'' (erase_expired_entries 100000000000
         [(''a'', entry ''x'' 50 10), (''b'', entry ''y'' 200 10)]) = None
   \<and> map_find ''b'' (erase_expired_entries 100000000000
         [(''a'', entry ''x'' 50 10), (''b'', entry ''y'' 200 10)]) = Some (entry ''y'' 200 10)"
proof -
  have ts: "current_timestamp_in_seconds 100000000000 = 100"
    by (simp add: current_timestamp_in_seconds_def duration_cast_seconds_def ticks_per_second_def)
  have d: "distinct (map fst [(''a'', entry ''x'' 50 10), (''b'', entry ''y'' 200 10)])"
    by simp
  have x: "expiration (entry ''x'' 50 10) = 50" "expiration (entry ''y'' 200 10) = 200"
    by (simp_all add: entry_def)
  show ?thesis
    using erase_expired_entries_exact
      [of 100000000000 "[(''a'', entry ''x'' 50 10), (''b'', entry ''y'' 200 10)]"] d
    by (simp add: ts x map_find_def size_entries_def)
qed

subsection \<open>Insertion\<close>

text \<open>
  C3 says that \<open>insert_or_assign\<close> returns false and overwrites alias and expiration,
  leaving the size as it is, exactly when the map had an entry for the key. The code does
  not, at two inputs.
  \<^item> The key is handed over as the view of the first five characters of
    \<open>host1.example\<close> and the map has an entry for \<open>host1\<close>. The call returns true, the
    entry for \<open>host1\<close> keeps its alias and its expiration, and the map has grown by an entry
    for \<open>host1.example\<close>.
  \<^item> The alias has 257 characters. The constructor stores its last character one past
    the array; on the object that is the low byte of \<open>expiration\<close>: the entry carries the
    expiration 97, not the 39 of the call.
\<close>

theorem insert_or_assign_misses_existing_key:
  "chars (prefix_view ''host1.example'' 5) = ''host1''
   \<and> map_find ''host1'' [(''host1'', entry ''1.2.3.4'' 61 60)] = Some (entry ''1.2.3.4'' 61 60)
   \<and> insert_or_assign 9000000000 (prefix_view ''host1.example'' 5) ''5.6.7.8'' 30
        [(''host1'', entry ''1.2.3.4'' 61 60)]
      = Inr ([(''host1'', entry ''1.2.3.4'' 61 60), (''host1.example'', entry ''5.6.7.8'' 39 30)],
             True)
   \<and> size_entries [(''host1'', entry ''1.2.3.4'' 61 60), (''host1.example'', entry ''5.6.7.8'' 39 30)]
      = Suc (size_entries [(''host1'', entry ''1.2.3.4'' 61 60)])
   \<and> duration_cast_seconds (wrap64 (9000000000 + wrap64 (30 * ticks_per_second))) = 39
   \<and> alias_ctor_object (replicate 257 (CHR ''a'')) 39 30
      = Inr \<lparr>hostname = replicate 256 (CHR ''a''), expiration = 97, expires_after = 30\<rparr>"
proof -
  have v: "chars (prefix_view ''host1.example'' 5) = ''host1''"
    by (simp add: chars_prefix_view)
  have p: "key_type_ctor (prefix_view ''host1.example'' 5) = Inr ''host1.example''"
    by (simp add: key_type_ctor_prefix_view c_str_def NUL_def)
  have g: "map_find ''host1'' [(''host1'', entry ''1.2.3.4'' 61 60)] = Some (entry ''1.2.3.4'' 61 60)"
    by (simp add: map_find_def)
  have x: "duration_cast_seconds (wrap64 (9000000000 + wrap64 (30 * ticks_per_second))) = 39"
    by (simp add: duration_cast_seconds_def wrap64_def ticks_per_second_def)
  have a: "alias_ctor ''5.6.7.8'' 39 30 = Inr (entry ''5.6.7.8'' 39 30)"
    using alias_ctor_entry[of "''5.6.7.8''" 39 30]
    by (simp add: hostname_size_def c_str_def NUL_def)
  have later: "''host1'' < ''host1.example''" by simp
  have i: "insert_or_assign 9000000000 (prefix_view ''host1.example'' 5) ''5.6.7.8'' 30
        [(''host1'', entry ''1.2.3.4'' 61 60)]
      = Inr ([(''host1'', entry ''1.2.3.4'' 61 60), (''host1.example'', entry ''5.6.7.8'' 39 30)],
             True)"
    using later by (simp add: insert_or_assign_def x p a map_insert_or_assign_def map_find_def)
  have s: "size_entries [(''host1'', entry ''1.2.3.4'' 61 60), (''host1.example'', entry ''5.6.7.8'' 39 30)]
      = Suc (size_entries [(''host1'', entry ''1.2.3.4'' 61 60)])"
    by (simp add: size_entries_def)
  have "set_byte 0 (CHR ''a'') 39 = 97"
    by (simp add: set_byte_def wrap64_def)
  then have o: "alias_ctor_object (replicate 257 (CHR ''a'')) 39 30
      = Inr \<lparr>hostname = replicate 256 (CHR ''a''), expiration = 97, expires_after = 30\<rparr>"
    using alias_ctor_object_one_past[of "CHR ''a''" 39 30] by (simp add: NUL_def)
  from v g i s x o show ?thesis by blast
qed




subsection \<open>Erasure\<close>

text \<open>
  C7 says that \<open>erase\<close> removes the entry for the key and that a lookup of the key then
  returns absent. The code does not when the key is handed over as the view of the first
  five characters of \<open>host1.example\<close>: the key it erases is built from the pointer of the
  view alone. The entry for \<open>host1.example\<close> goes, the entry for \<open>host1\<close> stays, and a
  lookup of \<open>host1\<close> returns its alias.
\<close>

theorem erase_leaves_entry:
  "chars (prefix_view ''host1.example'' 5) = ''host1''
   \<and> erase (prefix_view ''host1.example'' 5)
        [(''host1'', entry ''1.2.3.4'' 61 60), (''host1.example'', entry ''5.6.7.8'' 61 60)]
      = Inr [(''host1'', entry ''1.2.3.4'' 61 60)]
   \<and> chars (view_of ''host1'') = ''host1''
   \<and> lookup 1500000000 (view_of ''host1'') [(''host1'', entry ''1.2.3.4'' 61 60)]
      = Inr (Some ''1.2.3.4'')"
proof -
  have v: "chars (prefix_view ''host1.example'' 5) = ''host1''"
    by (simp add: chars_prefix_view)
  have p: "key_type_ctor (prefix_view ''host1.example'' 5) = Inr ''host1.example''"
    by (simp add: key_type_ctor_prefix_view c_str_def NUL_def)
  have e: "erase (prefix_view ''host1.example'' 5)
        [(''host1'', entry ''1.2.3.4'' 61 60), (''host1.example'', entry ''5.6.7.8'' 61 60)]
      = Inr [(''host1'', entry ''1.2.3.4'' 61 60)]"
    by (simp add: erase_def p map_erase_def)
  have k: "key_type_ctor (view_of ''host1'') = Inr ''host1''"
    by (simp add: key_type_ctor_view_of c_str_def NUL_def)
  have "string_from_buffer (''1.2.3.4'' @ replicate 249 NUL) = Inr ''1.2.3.4''"
    by (rule string_from_buffer_padded) (simp_all add: NUL_def)
  then have "string_from_buffer (hostname (entry ''1.2.3.4'' 61 60)) = Inr ''1.2.3.4''"
    by (simp add: entry_def hostname_size_def)
  then have l: "lookup 1500000000 (view_of ''host1'') [(''host1'', entry ''1.2.3.4'' 61 60)]
      = Inr (Some ''1.2.3.4'')"
    by (simp add: lookup_def map_find_def k current_timestamp_in_seconds_def
        duration_cast_seconds_def ticks_per_second_def entry_def)
  from v e l show ?thesis by (simp add: chars_view_of)
qed

subsection \<open>Expiration is fixed at insertion\<close>

text \<open>
  C5 says that every entry carries the expiration computed by the \<open>insert_or_assign\<close> that
  wrote it. The code does not keep it for an alias of 257 characters, inserted at the
  epoch with 60 seconds to live. The expiration computed is 60. The constructor sets the
  field to 60 and then copies the alias: the copy is bounded by the length of the alias,
  not by the size of the array, and its last store is one past the array. The language
  gives that store no meaning; on the object it is the low byte of \<open>expiration\<close>, and the
  entry carries the expiration 97.
\<close>

theorem alias_ctor_overwrites_expiration:
  "duration_cast_seconds (wrap64 (0 + wrap64 (60 * ticks_per_second))) = 60
   \<and> insert_or_assign 0 (view_of ''k'') (replicate 257 (CHR ''a'')) 60 [] = Inl Out_of_bounds_write
   \<and> alias_ctor_object (replicate 257 (CHR ''a'')) 60 60
      = Inr \<lparr>hostname = replicate 256 (CHR ''a''), expiration = 97, expires_after = 60\<rparr>"
proof -
  have x: "duration_cast_seconds (wrap64 (0 + wrap64 (60 * ticks_per_second))) = 60"
    by (simp add: duration_cast_seconds_def wrap64_def ticks_per_second_def)
  have k: "key_type_ctor (view_of ''k'') = Inr ''k''"
    by (simp add: key_type_ctor_view_of c_str_def NUL_def)
  have "alias_ctor (replicate 257 (CHR ''a'')) 60 60 = Inl Out_of_bounds_write"
    by (rule alias_ctor_overflow) (simp add: hostname_size_def)
  with x have i: "insert_or_assign 0 (view_of ''k'') (replicate 257 (CHR ''a'')) 60 []
      = Inl Out_of_bounds_write"
    by (simp add: insert_or_assign_def k)
  have "set_byte 0 (CHR ''a'') 60 = 97"
    by (simp add: set_byte_def wrap64_def)
  then have o: "alias_ctor_object (replicate 257 (CHR ''a'')) 60 60
      = Inr \<lparr>hostname = replicate 256 (CHR ''a''), expiration = 97, expires_after = 60\<rparr>"
    using alias_ctor_object_one_past[of "CHR ''a''" 60 60] by (simp add: NUL_def)
  from x i o show ?thesis by blast
qed

subsection \<open>The array of the entry\<close>

text \<open>
  C6 says that the constructor never stores past the 256 characters of \<open>hostname\<close>. The
  code passes the length of the alias to \<open>strncpy\<close>, not the size of the array: for an
  alias of 257 characters it stores at offset 256, one past the array.
\<close>

theorem alias_ctor_stores_past_array:
  "(256, CHR ''a'') \<in> set (strncpy (replicate 257 (CHR ''a'')) (length (replicate 257 (CHR ''a''))))
   \<and> \<not> 256 < hostname_size
   \<and> alias_ctor (replicate 257 (CHR ''a'')) 0 0 = Inl Out_of_bounds_write"
proof -
  have "NUL \<notin> set (replicate 257 (CHR ''a''))" by (simp add: NUL_def)
  then have c: "c_str (replicate 257 (CHR ''a'')) = replicate 257 (CHR ''a'')"
    by (rule c_str_id)
  have "strncpy (replicate 257 (CHR ''a'')) (length (replicate 257 (CHR ''a'')))
        = enumerate 0 (replicate 257 (CHR ''a''))"
    unfolding strncpy_whole c by simp
  then have "(256, CHR ''a'') \<in> set (strncpy (replicate 257 (CHR ''a''))
        (length (replicate 257 (CHR ''a''))))"
    by (simp add: in_set_enumerate_eq)
  moreover have "alias_ctor (replicate 257 (CHR ''a'')) 0 0 = Inl Out_of_bounds_write"
    by (rule alias_ctor_overflow) (simp add: hostname_size_def)
  ultimately show ?thesis by (simp add: hostname_size_def)
qed

subsection \<open>The life cycle\<close>

text \<open>
  C8. A call of \<open>init\<close> by the process whose identifier is the owner marker returns at
  once: globals, name spaces, segments and the cached entries are as before, whatever the
  arguments and the environment.
\<close>

theorem init_by_owner_noop:
  "pid = g_owner_pid g \<Longrightarrow> init env pid shm_name shm_size (g, os) = Inr (g, os)"
  by (simp add: init_def)

text \<open>C8 for process 42 in the sample world.\<close>

theorem init_by_owner_noop_witness:
  "42 = g_owner_pid (fst sample_world)
   \<and> init quiet 42 ''other'' 1 sample_world = Inr sample_world
   \<and> the_map sample_world = Some [(''host1'', entry ''1.2.3.4'' 61 60)]"
proof -
  have o: "42 = g_owner_pid (fst sample_world)" by (simp add: sample_world_def)
  from init_by_owner_noop[OF o, of quiet "''other''" 1 "snd sample_world"]
  have "init quiet 42 ''other'' 1 sample_world = Inr sample_world" by simp
  moreover have "the_map sample_world = Some [(''host1'', entry ''1.2.3.4'' 61 60)]"
    by (simp add: sample_world_def the_map_def)
  ultimately show ?thesis using o by blast
qed

text \<open>
  C9. A call of \<open>deinit\<close> by a process that is not the owner changes nothing. \<open>deinit\<close>
  always returns, whichever library calls throw. The owner's call clears the owner
  marker; when no library call throws it also destroys the map, resets the handles of
  mutex, allocator and segment, and removes both names from the operating system.
\<close>

theorem deinit_owner_only:
  "(pid \<noteq> g_owner_pid g \<longrightarrow> deinit env pid (g, os) = Inr (g, os))
   \<and> (\<exists>g' os'. deinit env pid (g, os) = Inr (g', os')
         \<and> (pid = g_owner_pid g \<longrightarrow> g_owner_pid g' = 0))
   \<and> (pid = g_owner_pid g \<and> (\<forall>c. \<not> env c) \<and> handles_ok g \<longrightarrow>
        (\<exists>g' os'. deinit env pid (g, os) = Inr (g', os')
           \<and> g_owner_pid g' = 0
           \<and> g_map g' = None \<and> g_mutex g' = None \<and> g_allocator g' = None \<and> g_segment g' = None
           \<and> the_map (g', os') = None
           \<and> (\<forall>p seg. g_map g = Some p \<and> segments os' p = Some seg \<longrightarrow> seg_map seg = None)
           \<and> g_mutex_name g \<notin> mutex_names os'
           \<and> shm_names os' (g_segment_name g) = None))"
proof -
  have non_owner: "pid \<noteq> g_owner_pid g \<longrightarrow> deinit env pid (g, os) = Inr (g, os)"
    by (simp add: deinit_def)
  have returns: "\<exists>g' os'. deinit env pid (g, os) = Inr (g', os')
         \<and> (pid = g_owner_pid g \<longrightarrow> g_owner_pid g' = 0)"
  proof -
    from deinit_returns obtain g' os' where r: "deinit env pid (g, os) = Inr (g', os')"
      by (metis surj_pair)
    with deinit_marker[of pid g env os g' os'] show ?thesis by blast
  qed
  have full: "\<exists>g' os'. deinit env pid (g, os) = Inr (g', os')
           \<and> g_owner_pid g' = 0
           \<and> g_map g' = None \<and> g_mutex g' = None \<and> g_allocator g' = None \<and> g_segment g' = None
           \<and> the_map (g', os') = None
           \<and> (\<forall>p seg. g_map g = Some p \<and> segments os' p = Some seg \<longrightarrow> seg_map seg = None)
           \<and> g_mutex_name g \<notin> mutex_names os'
           \<and> shm_names os' (g_segment_name g) = None"
    if own: "pid = g_owner_pid g" and no_throw: "\<forall>c. \<not> env c" and ok: "handles_ok g"
  proof -
    let ?g' = "g\<lparr>g_owner_pid := 0, g_map := None, g_mutex := None, g_allocator := None,
            g_segment := None\<rparr>"
    let ?os' = "(case (g_segment g, g_map g) of
             (Some s, Some p) \<Rightarrow> set_seg_map p None os
           | _ \<Rightarrow> os)
          \<lparr>mutex_names := mutex_names os - {g_mutex_name g},
           shm_names := (shm_names os)(g_segment_name g := None)\<rparr>"
    have d: "deinit env pid (g, os) = Inr (?g', ?os')"
      using own deinit_try_quiet[OF no_throw ok, of os] by (simp add: deinit_def)
    have destroyed: "\<forall>p seg. g_map g = Some p \<and> segments ?os' p = Some seg \<longrightarrow> seg_map seg = None"
      using ok by (auto simp: handles_ok_def set_seg_map_def split: option.splits if_splits)
    have "the_map (?g', ?os') = None" by (simp add: the_map_def)
    with d destroyed show ?thesis by simp
  qed
  from non_owner returns full show ?thesis by blast
qed

text \<open>C9 for a stranger, for the owner, and for the owner when \<open>destroy_ptr\<close> throws.\<close>

theorem deinit_owner_only_witness:
  "43 \<noteq> g_owner_pid (fst sample_world)
   \<and> deinit quiet 43 sample_world = Inr sample_world
   \<and> 42 = g_owner_pid (fst sample_world) \<and> (\<forall>c. \<not> quiet c) \<and> handles_ok (fst sample_world)
   \<and> (\<exists>g' os'. deinit quiet 42 sample_world = Inr (g', os')
         \<and> g_owner_pid g' = 0 \<and> g_map g' = None \<and> g_mutex g' = None \<and> g_segment g' = None
         \<and> the_map (g', os') = None
         \<and> ''hc_mutex'' \<notin> mutex_names os' \<and> shm_names os' ''hc'' = None)
   \<and> (\<exists>w'. deinit (\<lambda>c. c = Destroy_ptr) 42 sample_world = Inr w')"
proof -
  have n: "43 \<noteq> g_owner_pid (fst sample_world)" and o: "42 = g_owner_pid (fst sample_world)"
    and h: "handles_ok (fst sample_world)"
    and names: "g_mutex_name (fst sample_world) = ''hc_mutex''"
      "g_segment_name (fst sample_world) = ''hc''"
    by (simp_all add: sample_world_def handles_ok_def)
  have q: "\<forall>c. \<not> quiet c" by (simp add: quiet_def)
  note other = deinit_owner_only[of 43 "fst sample_world" quiet "snd sample_world"]
  note owner = deinit_owner_only[of 42 "fst sample_world" quiet "snd sample_world"]
  note throwing = deinit_owner_only[of 42 "fst sample_world" "\<lambda>c. c = Destroy_ptr" "snd sample_world"]
  from other n have a: "deinit quiet 43 sample_world = Inr sample_world" by simp
  from owner o q h names
  have b: "\<exists>g' os'. deinit quiet 42 sample_world = Inr (g', os')
         \<and> g_owner_pid g' = 0 \<and> g_map g' = None \<and> g_mutex g' = None \<and> g_segment g' = None
         \<and> the_map (g', os') = None
         \<and> ''hc_mutex'' \<notin> mutex_names os' \<and> shm_names os' ''hc'' = None"
    by (simp del: ex_simps) blast
  from throwing have c: "\<exists>w'. deinit (\<lambda>c. c = Destroy_ptr) 42 sample_world = Inr w'"
    by (simp del: ex_simps) blast
  from n a o q h b c show ?thesis by blast
qed

text \<open>
  C10. After the owner's \<open>deinit\<close> the owner marker is 0, the identifier of no process. A
  following \<open>init\<close> by the same process, when no library call throws, is therefore not the
  early return: it creates a new segment under the given name, the mutex and an empty map,
  and makes the process the owner again.
\<close>

theorem init_after_deinit_recreates:
  assumes "pid \<noteq> 0" and "pid = g_owner_pid g" and "\<forall>c. \<not> env' c"
  shows "\<exists>g1 os1 g2 os2.
           deinit env pid (g, os) = Inr (g1, os1)
         \<and> g_owner_pid g1 = 0
         \<and> init env' pid shm_name shm_size (g1, os1) = Inr (g2, os2)
         \<and> (g2, os2) \<noteq> (g1, os1)
         \<and> g_owner_pid g2 = pid
         \<and> the_map (g2, os2) = Some []
         \<and> g_segment g2 = Some (next_segment os1)
         \<and> g_map g2 = Some (next_segment os1)
         \<and> g_mutex g2 = Some (c_str shm_name @ ''_mutex'')
         \<and> segments os2 (next_segment os1) = Some \<lparr>seg_size = shm_size, seg_map = Some []\<rparr>
         \<and> shm_names os2 (c_str shm_name) = Some (next_segment os1)
         \<and> c_str shm_name @ ''_mutex'' \<in> mutex_names os2"
proof -
  from deinit_returns obtain g1 os1 where d: "deinit env pid (g, os) = Inr (g1, os1)"
    by (metis surj_pair)
  from deinit_marker[OF assms(2) d] have m: "g_owner_pid g1 = 0" .
  with assms(1) have ne: "pid \<noteq> g_owner_pid g1" by simp
  let ?g2 = "g1\<lparr>g_segment_name := c_str shm_name, g_segment_size := shm_size,
            g_mutex_name := c_str shm_name @ ''_mutex'', g_owner_pid := pid,
            g_segment := Some (next_segment os1), g_allocator := Some (next_segment os1),
            g_mutex := Some (c_str shm_name @ ''_mutex''), g_map := Some (next_segment os1)\<rparr>"
  let ?os2 = "os1\<lparr>mutex_names := insert (c_str shm_name @ ''_mutex'') (mutex_names os1),
             shm_names := (shm_names os1)(c_str shm_name \<mapsto> next_segment os1),
             segments := (segments os1)(next_segment os1 \<mapsto> \<lparr>seg_size = shm_size, seg_map = Some []\<rparr>),
             next_segment := Suc (next_segment os1)\<rparr>"
  have i: "init env' pid shm_name shm_size (g1, os1) = Inr (?g2, ?os2)"
    using init_quiet[OF ne assms(3)] .
  have "g_owner_pid ?g2 \<noteq> g_owner_pid g1" using ne by simp
  then have changed: "(?g2, ?os2) \<noteq> (g1, os1)" by (metis fst_conv)
  have "the_map (?g2, ?os2) = Some []" by (simp add: the_map_def)
  with d m i changed show ?thesis by simp
qed

text \<open>C10 for process 42 in the sample world.\<close>

theorem init_after_deinit_recreates_witness:
  "(42::int) \<noteq> 0 \<and> 42 = g_owner_pid (fst sample_world) \<and> (\<forall>c. \<not> quiet c)
   \<and> (\<exists>g1 os1 g2 os2.
         deinit quiet 42 sample_world = Inr (g1, os1)
       \<and> g_owner_pid g1 = 0
       \<and> init quiet 42 ''hc'' 4096 (g1, os1) = Inr (g2, os2)
       \<and> g_owner_pid g2 = 42
       \<and> the_map (g2, os2) = Some [])"
proof -
  have o: "42 = g_owner_pid (fst sample_world)" by (simp add: sample_world_def)
  have q: "\<forall>c. \<not> quiet c" by (simp add: quiet_def)
  have z: "(42::int) \<noteq> 0" by simp
  from init_after_deinit_recreates[OF z o q, of quiet "snd sample_world" "''hc''" 4096]
  have "\<exists>g1 os1 g2 os2.
         deinit quiet 42 sample_world = Inr (g1, os1)
       \<and> g_owner_pid g1 = 0
       \<and> init quiet 42 ''hc'' 4096 (g1, os1) = Inr (g2, os2)
       \<and> g_owner_pid g2 = 42
       \<and> the_map (g2, os2) = Some []"
    by (simp del: ex_simps) blast
  with z o q show ?thesis by blast
qed

end
